theory Spec2Isabelle
  imports Complex_Main
begin

section \<open>The Spline evaluator of spline.h\<close>

text \<open>
  The class template \<^verbatim>\<open>Spline<T>\<close> is embedded over an arbitrary linearly ordered field
  \<open>'a\<close> standing for the scalar type \<open>T\<close>: comparisons are the order of the field,
  \<^verbatim>\<open>pow(t,3)\<close> is \<open>t ^ 3\<close>, and arithmetic is exact (rounding, NaN and infinities of
  \<^verbatim>\<open>float\<close>/\<^verbatim>\<open>double\<close> are not part of the model). The borrowed arrays
  \<^verbatim>\<open>_x\<close>, \<^verbatim>\<open>_y\<close>, \<^verbatim>\<open>_m\<close> are lists; the C++ \<^verbatim>\<open>int\<close> members are
  integers, taken to be 32 bits wide. The one \<^verbatim>\<open>int\<close> sum that can leave that range
  is \<^verbatim>\<open>i + _prev_point\<close> in the scan (large tables with a wrapping scan, or a cursor
  kept from an earlier, longer table); the other index arithmetic stays within
  \<^verbatim>\<open>_length\<close>. Everything the C++ leaves undefined is an explicit error value:
  a read outside an array, a division by zero, a signed overflow of that sum, and the
  two places where a non-void function runs off its end without a \<^verbatim>\<open>return\<close>.
\<close>

subsection \<open>Data model\<close>

datatype error = OutOfBounds | DivByZero | Overflow | NoReturn_value | NoReturn_calc

record 'a spline =
  u_x :: "'a list"
  u_y :: "'a list"
  u_m :: "'a list"
  u_degree :: int
  u_length :: int
  u_prev_point :: int

text \<open>The macros \<^verbatim>\<open>#define Hermite 10\<close> and \<^verbatim>\<open>#define Catmull 11\<close>.\<close>

definition Hermite :: int where
  "Hermite = 10"

definition Catmull :: int where
  "Catmull = 11"

subsection \<open>Fallible primitives\<close>

text \<open>Sequencing of fallible steps: the first error ends the computation.\<close>

definition bind_res :: "error + 'b \<Rightarrow> ('b \<Rightarrow> error + 'c) \<Rightarrow> error + 'c" where
  "bind_res r f = (case r of Inl e \<Rightarrow> Inl e | Inr v \<Rightarrow> f v)"

text \<open>\<^verbatim>\<open>a[i]\<close> on a raw array: defined only inside the array.\<close>

definition rd :: "'b list \<Rightarrow> int \<Rightarrow> error + 'b" where
  "rd a i = (if 0 \<le> i \<and> i < int (length a) then Inr (a ! nat i) else Inl OutOfBounds)"

text \<open>\<^verbatim>\<open>a / b\<close> on scalars, with the zero divisor made visible.\<close>

definition divide_checked :: "'a::linordered_field \<Rightarrow> 'a \<Rightarrow> error + 'a" where
  "divide_checked a b = (if b = 0 then Inl DivByZero else Inr (a / b))"

text \<open>\<^verbatim>\<open>a % b\<close> on C++ ints: the remainder of the division truncated towards zero.\<close>

definition c_rem :: "int \<Rightarrow> int \<Rightarrow> int" where
  "c_rem a b = sgn a * (\<bar>a\<bar> mod \<bar>b\<bar>)"

text \<open>The range of a C++ \<^verbatim>\<open>int\<close>, and the sums \<^verbatim>\<open>a + b\<close> that leave it.\<close>

definition INT_MAX :: int where
  "INT_MAX = 2 ^ 31 - 1"

definition INT_MIN :: int where
  "INT_MIN = - (2 ^ 31)"

definition add_overflows :: "int \<Rightarrow> int \<Rightarrow> bool" where
  "add_overflows a b \<longleftrightarrow> a + b < INT_MIN \<or> INT_MAX < a + b"

subsection \<open>Construction and configuration\<close>

text \<open>
  \<^verbatim>\<open>setPoints\<close> (both overloads) and \<^verbatim>\<open>setDegree\<close> assign members; the constructors
  call them and reset the cursor. Members a constructor leaves uninitialised keep
  whatever the given state holds.
\<close>

definition setPoints :: "'a spline \<Rightarrow> 'a list \<Rightarrow> 'a list \<Rightarrow> int \<Rightarrow> 'a spline" where
  "setPoints s x y numPoints = s\<lparr>u_x := x, u_y := y, u_length := numPoints\<rparr>"

definition setPoints_m :: "'a spline \<Rightarrow> 'a list \<Rightarrow> 'a list \<Rightarrow> 'a list \<Rightarrow> int \<Rightarrow> 'a spline" where
  "setPoints_m s x y m numPoints = s\<lparr>u_x := x, u_y := y, u_m := m, u_length := numPoints\<rparr>"

definition setDegree :: "'a spline \<Rightarrow> int \<Rightarrow> 'a spline" where
  "setDegree s degree = s\<lparr>u_degree := degree\<rparr>"

definition Spline_void :: "'a spline \<Rightarrow> 'a spline" where
  "Spline_void s = s\<lparr>u_prev_point := 0\<rparr>"

definition Spline_xy :: "'a spline \<Rightarrow> 'a list \<Rightarrow> 'a list \<Rightarrow> int \<Rightarrow> int \<Rightarrow> 'a spline" where
  "Spline_xy s x y numPoints degree =
     (setDegree (setPoints s x y numPoints) degree)\<lparr>u_prev_point := 0\<rparr>"

definition Spline_xym :: "'a spline \<Rightarrow> 'a list \<Rightarrow> 'a list \<Rightarrow> 'a list \<Rightarrow> int \<Rightarrow> 'a spline" where
  "Spline_xym s x y m numPoints =
     (setDegree (setPoints_m s x y m numPoints) Hermite)\<lparr>u_prev_point := 0\<rparr>"

subsection \<open>Hermite basis and tangents\<close>

definition hermite_00 :: "'a::linordered_field \<Rightarrow> 'a" where
  "hermite_00 t = (2 * t ^ 3) - (3 * t ^ 2) + 1"

definition hermite_10 :: "'a::linordered_field \<Rightarrow> 'a" where
  "hermite_10 t = t ^ 3 - (2 * t ^ 2) + t"

definition hermite_01 :: "'a::linordered_field \<Rightarrow> 'a" where
  "hermite_01 t = (3 * t ^ 2) - (2 * t ^ 3)"

definition hermite_11 :: "'a::linordered_field \<Rightarrow> 'a" where
  "hermite_11 t = t ^ 3 - t ^ 2"

definition hermite :: "'a::linordered_field \<Rightarrow> 'a \<Rightarrow> 'a \<Rightarrow> 'a \<Rightarrow> 'a \<Rightarrow> 'a \<Rightarrow> 'a \<Rightarrow> 'a" where
  "hermite t p0 p1 m0 m1 x0 x1 =
     (hermite_00 t * p0) + (hermite_10 t * (x1 - x0) * m0)
       + (hermite_01 t * p1) + (hermite_11 t * (x1 - x0) * m1)"

definition catmull_tangent :: "'a::linordered_field spline \<Rightarrow> int \<Rightarrow> error + 'a" where
  "catmull_tangent s i =
     bind_res (rd (u_x s) (i + 1)) (\<lambda>xn.
     bind_res (rd (u_x s) (i - 1)) (\<lambda>xp.
       if xn = xp then Inr 0
       else
         bind_res (rd (u_y s) (i + 1)) (\<lambda>yn.
         bind_res (rd (u_y s) (i - 1)) (\<lambda>yp.
           divide_checked (yn - yp) (xn - xp)))))"

subsection \<open>Per-mode segment value\<close>

definition calc :: "'a::linordered_field spline \<Rightarrow> 'a \<Rightarrow> int \<Rightarrow> error + 'a" where
  "calc s x i =
     (if u_degree s = 0 then rd (u_y s) i
      else if u_degree s = 1 then
        bind_res (rd (u_x s) i) (\<lambda>xi.
        bind_res (rd (u_x s) (i + 1)) (\<lambda>xi1.
          if xi = xi1 then rd (u_y s) i
          else
            bind_res (rd (u_y s) i) (\<lambda>yi.
            bind_res (rd (u_y s) (i + 1)) (\<lambda>yi1.
            bind_res (divide_checked ((yi1 - yi) * (x - xi)) (xi1 - xi)) (\<lambda>d.
              Inr (yi + d))))))
      else if u_degree s = Hermite then
        bind_res (rd (u_x s) i) (\<lambda>xi.
        bind_res (rd (u_x s) (i + 1)) (\<lambda>xi1.
        bind_res (divide_checked (x - xi) (xi1 - xi)) (\<lambda>t.
        bind_res (rd (u_y s) i) (\<lambda>yi.
        bind_res (rd (u_y s) (i + 1)) (\<lambda>yi1.
        bind_res (rd (u_m s) i) (\<lambda>mi.
        bind_res (rd (u_m s) (i + 1)) (\<lambda>mi1.
          Inr (hermite t yi yi1 mi mi1 xi xi1))))))))
      else if u_degree s = Catmull then
        (if i = 0 then rd (u_y s) 1
         else if i = u_length s - 2 then rd (u_y s) (u_length s - 2)
         else
           bind_res (rd (u_x s) i) (\<lambda>xi.
           bind_res (rd (u_x s) (i + 1)) (\<lambda>xi1.
           bind_res (divide_checked (x - xi) (xi1 - xi)) (\<lambda>t.
           bind_res (if i = 0 then Inr 0 else catmull_tangent s i) (\<lambda>m0.
           bind_res (if i = u_length s - 1 then Inr 0 else catmull_tangent s (i + 1)) (\<lambda>m1.
           bind_res (rd (u_y s) i) (\<lambda>yi.
           bind_res (rd (u_y s) (i + 1)) (\<lambda>yi1.
             Inr (hermite t yi yi1 m0 m1 xi xi1)))))))))
      else Inl NoReturn_calc)"

subsection \<open>Evaluation with the cyclic scan\<close>

text \<open>
  One iteration of the \<^verbatim>\<open>for\<close> loop at a given \<^verbatim>\<open>index\<close>: \<open>Some\<close> is a
  \<^verbatim>\<open>return\<close> (the value and the state with the cursor moved), \<open>None\<close> goes on
  to the next iteration. \<^verbatim>\<open>_x[index+1]\<close> is read only when \<^verbatim>\<open>_x[index] < x\<close>,
  as \<^verbatim>\<open>&&\<close> does.
\<close>

definition value_body :: "'a::linordered_field spline \<Rightarrow> 'a \<Rightarrow> int \<Rightarrow> error + ('a \<times> 'a spline) option" where
  "value_body s x index =
     bind_res (rd (u_x s) index) (\<lambda>xi.
       if xi = x then
         bind_res (rd (u_y s) index) (\<lambda>yi. Inr (Some (yi, s\<lparr>u_prev_point := index\<rparr>)))
       else if xi < x then
         bind_res (rd (u_x s) (index + 1)) (\<lambda>xi1.
           if x < xi1 then
             bind_res (calc (s\<lparr>u_prev_point := index\<rparr>) x index) (\<lambda>r.
               Inr (Some (r, s\<lparr>u_prev_point := index\<rparr>)))
           else Inr None)
       else Inr None)"

function value_loop :: "'a::linordered_field spline \<Rightarrow> 'a \<Rightarrow> int \<Rightarrow> error + ('a \<times> 'a spline)" where
  "value_loop s x i =
     (if i < u_length s then
        (if add_overflows i (u_prev_point s) then Inl Overflow
         else
           (case value_body s x (c_rem (i + u_prev_point s) (u_length s)) of
              Inl e \<Rightarrow> Inl e
            | Inr (Some r) \<Rightarrow> Inr r
            | Inr None \<Rightarrow> value_loop s x (i + 1)))
      else Inl NoReturn_value)"
  by pat_completeness auto
termination
  by (relation "measure (\<lambda>(s, x, i). nat (u_length s - i))") auto

definition "value" :: "'a::linordered_field spline \<Rightarrow> 'a \<Rightarrow> error + ('a \<times> 'a spline)" where
  "value s x =
     bind_res (rd (u_x s) 0) (\<lambda>x0.
       if x0 > x then bind_res (rd (u_y s) 0) (\<lambda>y0. Inr (y0, s))
       else
         bind_res (rd (u_x s) (u_length s - 1)) (\<lambda>xl.
           if xl < x then bind_res (rd (u_y s) (u_length s - 1)) (\<lambda>yl. Inr (yl, s))
           else value_loop s x 0))"

subsection \<open>Vocabulary of the specification\<close>

text \<open>
  A configured table holds at least one sample and both arrays cover the declared
  length; sortedness is the caller's contract on the first \<^verbatim>\<open>_length\<close> abscissae.
  An index is a hit for a query when it is an exact match or the left end of a
  containing segment; \<open>scan_order\<close> lists the indices \<open>(cursor + k) mod N\<close> for
  \<open>k = 0..N-1\<close>; \<open>outcome\<close> is what \<^verbatim>\<open>value\<close> returns at a hit.
\<close>

definition table_ok :: "'a spline \<Rightarrow> bool" where
  "table_ok s \<longleftrightarrow> 1 \<le> u_length s \<and> u_length s \<le> int (length (u_x s)) \<and> u_length s \<le> int (length (u_y s))"

definition sorted_table :: "'a::linorder spline \<Rightarrow> bool" where
  "sorted_table s \<longleftrightarrow> sorted (take (nat (u_length s)) (u_x s))"

text \<open>
  The cursor is usable when it is not negative and the largest sum the scan can form,
  \<open>(N - 1) + cursor\<close>, is still an \<^verbatim>\<open>int\<close>. A cursor in \<open>0..N-1\<close> is usable as soon as
  \<open>N \<le> 2^30\<close>.
\<close>

definition cursor_ok :: "'a spline \<Rightarrow> bool" where
  "cursor_ok s \<longleftrightarrow> 0 \<le> u_prev_point s \<and> u_prev_point s + u_length s \<le> INT_MAX + 1"

definition hit :: "'a::linorder spline \<Rightarrow> 'a \<Rightarrow> int \<Rightarrow> bool" where
  "hit s q idx \<longleftrightarrow> u_x s ! nat idx = q \<or> (u_x s ! nat idx < q \<and> q < u_x s ! nat (idx + 1))"

definition scan_order :: "'a spline \<Rightarrow> int list" where
  "scan_order s = map (\<lambda>k. (u_prev_point s + k) mod u_length s) [0..u_length s - 1]"

definition outcome :: "'a::linordered_field spline \<Rightarrow> 'a \<Rightarrow> int \<Rightarrow> error + ('a \<times> 'a spline)" where
  "outcome s q idx =
     (if u_x s ! nat idx = q then Inr (u_y s ! nat idx, s\<lparr>u_prev_point := idx\<rparr>)
      else bind_res (calc (s\<lparr>u_prev_point := idx\<rparr>) q idx) (\<lambda>r. Inr (r, s\<lparr>u_prev_point := idx\<rparr>)))"

text \<open>
  A mode is usable when \<^verbatim>\<open>_degree\<close> is one of the four constants \<^verbatim>\<open>calc\<close>
  switches on and, for Hermite, the tangent array covers the table.
\<close>

definition mode_ok :: "'a spline \<Rightarrow> bool" where
  "mode_ok s \<longleftrightarrow>
     (u_degree s = 0 \<or> u_degree s = 1 \<or> u_degree s = Catmull
       \<or> (u_degree s = Hermite \<and> u_length s \<le> int (length (u_m s))))"

text \<open>The scalar a call returns, if it returns one.\<close>

definition result :: "error + ('a \<times> 'a spline) \<Rightarrow> 'a option" where
  "result r = (case r of Inl e \<Rightarrow> None | Inr (v, s) \<Rightarrow> Some v)"

subsection \<open>Concrete tables\<close>

text \<open>
  The samples of the square function on 0..3 with its derivative as tangents, and
  tables with repeated abscissae or only two samples.
\<close>

definition squares_table :: "int \<Rightarrow> int \<Rightarrow> rat spline" where
  "squares_table degree cursor =
     \<lparr>u_x = [0, 1, 2, 3], u_y = [0, 1, 4, 9], u_m = [0, 2, 4, 6],
      u_degree = degree, u_length = 4, u_prev_point = cursor\<rparr>"

definition dup_table :: "int \<Rightarrow> rat spline" where
  "dup_table cursor =
     \<lparr>u_x = [0, 0], u_y = [5, 7], u_m = [], u_degree = 1, u_length = 2, u_prev_point = cursor\<rparr>"

definition dup_mid_table :: "int \<Rightarrow> rat spline" where
  "dup_mid_table cursor =
     \<lparr>u_x = [0, 1, 1, 2], u_y = [0, 10, 20, 30], u_m = [], u_degree = 1, u_length = 4,
      u_prev_point = cursor\<rparr>"

definition triple_table :: "rat spline" where
  "triple_table =
     \<lparr>u_x = [0, 1, 1, 1, 2], u_y = [0, 10, 20, 30, 40], u_m = [], u_degree = Catmull,
      u_length = 5, u_prev_point = 0\<rparr>"

definition two_point_table :: "rat spline" where
  "two_point_table =
     \<lparr>u_x = [0, 1], u_y = [5, 7], u_m = [], u_degree = Catmull, u_length = 2, u_prev_point = 0\<rparr>"

section \<open>Basic facts\<close>

declare value_loop.simps [simp del]

lemma rd_ok: "0 \<le> i \<Longrightarrow> i < int (length a) \<Longrightarrow> rd a i = Inr (a ! nat i)"
  by (simp add: rd_def)

lemma bind_res_Inr [simp]: "bind_res (Inr v) f = f v"
  by (simp add: bind_res_def)

lemma bind_res_Inl [simp]: "bind_res (Inl e) f = Inl e"
  by (simp add: bind_res_def)

lemma c_rem_nonneg: "0 \<le> a \<Longrightarrow> 0 < b \<Longrightarrow> c_rem a b = a mod b"
  by (cases "a = 0") (simp_all add: c_rem_def)

lemma value_body_hit:
  assumes "table_ok s" "0 \<le> idx" "idx < u_length s" "\<not> u_x s ! nat (u_length s - 1) < q"
  shows "value_body s q idx =
     (if hit s q idx then bind_res (outcome s q idx) (\<lambda>r. Inr (Some r)) else Inr None)"
proof -
  have bx: "rd (u_x s) idx = Inr (u_x s ! nat idx)" and by': "rd (u_y s) idx = Inr (u_y s ! nat idx)"
    using assms by (simp_all add: rd_ok table_ok_def)
  show ?thesis
  proof (cases "u_x s ! nat idx < q")
    case True
    then have "idx \<noteq> u_length s - 1" using assms(4) by auto
    then have "idx + 1 < u_length s" using assms(3) by simp
    then have bx1: "rd (u_x s) (idx + 1) = Inr (u_x s ! nat (idx + 1))"
      using assms by (simp add: rd_ok table_ok_def)
    show ?thesis using True
      by (cases "calc (s\<lparr>u_prev_point := idx\<rparr>) q idx") (simp_all add: value_body_def bx bx1 hit_def outcome_def)
  next
    case False
    then show ?thesis
      by (auto simp add: value_body_def bx by' hit_def outcome_def)
  qed
qed

lemma value_loop_find:
  "table_ok s \<Longrightarrow> cursor_ok s \<Longrightarrow> \<not> u_x s ! nat (u_length s - 1) < q \<Longrightarrow> 0 \<le> i \<Longrightarrow>
   value_loop s q i =
     (case find (hit s q) (map (\<lambda>k. (u_prev_point s + k) mod u_length s) [i..u_length s - 1]) of
        None \<Rightarrow> Inl NoReturn_value
      | Some idx \<Rightarrow> outcome s q idx)"
proof (induction s q i rule: value_loop.induct)
  case (1 s x i)
  show ?case
  proof (cases "i < u_length s")
    case True
    let ?idx = "(u_prev_point s + i) mod u_length s"
    have N: "0 < u_length s" using "1.prems" True by simp
    have c: "0 \<le> u_prev_point s" "u_prev_point s + u_length s \<le> INT_MAX + 1"
      using "1.prems" by (simp_all add: cursor_ok_def)
    have "INT_MIN \<le> 0" by (simp add: INT_MIN_def)
    then have novf: "\<not> add_overflows i (u_prev_point s)"
      using c True "1.prems"(4) unfolding add_overflows_def by linarith
    have idx: "c_rem (i + u_prev_point s) (u_length s) = ?idx"
      using "1.prems" c N by (simp add: c_rem_nonneg add.commute)
    have body: "value_body s x ?idx =
        (if hit s x ?idx then bind_res (outcome s x ?idx) (\<lambda>r. Inr (Some r)) else Inr None)"
      using "1.prems" N by (intro value_body_hit) simp_all
    have up: "[i..u_length s - 1] = i # [i + 1..u_length s - 1]"
      using True by (simp add: upto_rec1)
    show ?thesis
    proof (cases "hit s x ?idx")
      case h: True
      show ?thesis
        by (subst value_loop.simps, cases "outcome s x ?idx")
           (simp_all add: True novf idx body up h)
    next
      case h: False
      have "value_loop s x (i + 1) =
        (case find (hit s x) (map (\<lambda>k. (u_prev_point s + k) mod u_length s) [i + 1..u_length s - 1]) of
           None \<Rightarrow> Inl NoReturn_value
         | Some idx \<Rightarrow> outcome s x idx)"
        using "1.prems" by (intro "1.IH") (simp_all add: True novf idx body h)
      then show ?thesis
        by (subst value_loop.simps) (simp add: True novf idx body up h)
    qed
  next
    case False
    then show ?thesis
      by (subst value_loop.simps) simp
  qed
qed

lemma value_scan:
  assumes "table_ok s" "cursor_ok s"
    and "\<not> q < u_x s ! 0" "\<not> u_x s ! nat (u_length s - 1) < q"
  shows "value s q =
     (case find (hit s q) (scan_order s) of
        None \<Rightarrow> Inl NoReturn_value
      | Some idx \<Rightarrow> outcome s q idx)"
proof -
  have "rd (u_x s) 0 = Inr (u_x s ! 0)" "rd (u_x s) (u_length s - 1) = Inr (u_x s ! nat (u_length s - 1))"
    using assms(1) by (auto simp add: rd_def table_ok_def)
  then show ?thesis
    using assms value_loop_find [of s q 0] by (simp add: value_def scan_order_def)
qed

lemma value_below:
  assumes "table_ok s" "q < u_x s ! 0"
  shows "value s q = Inr (u_y s ! 0, s)"
proof -
  have "rd (u_x s) 0 = Inr (u_x s ! 0)" "rd (u_y s) 0 = Inr (u_y s ! 0)"
    using assms(1) by (auto simp add: rd_def table_ok_def)
  then show ?thesis using assms(2) by (simp add: value_def)
qed

lemma value_above:
  assumes "table_ok s" "\<not> q < u_x s ! 0" "u_x s ! nat (u_length s - 1) < q"
  shows "value s q = Inr (u_y s ! nat (u_length s - 1), s)"
proof -
  have "rd (u_x s) 0 = Inr (u_x s ! 0)" "rd (u_x s) (u_length s - 1) = Inr (u_x s ! nat (u_length s - 1))"
     "rd (u_y s) (u_length s - 1) = Inr (u_y s ! nat (u_length s - 1))"
    using assms(1) by (auto simp add: rd_def table_ok_def)
  then show ?thesis using assms(2,3) by (simp add: value_def)
qed

lemma sorted_nth:
  assumes "table_ok s" "sorted_table s" "0 \<le> i" "i \<le> j" "j < u_length s"
  shows "u_x s ! nat i \<le> u_x s ! nat j"
proof -
  let ?t = "take (nat (u_length s)) (u_x s)"
  have "nat (u_length s) \<le> length (u_x s)"
    using assms(1) unfolding table_ok_def by linarith
  then have len: "length ?t = nat (u_length s)"
    by simp
  have ij: "nat i \<le> nat j" "nat j < nat (u_length s)"
    using assms(3-5) by linarith+
  have "sorted ?t" using assms(2) by (simp only: sorted_table_def)
  then have "?t ! nat i \<le> ?t ! nat j"
    using ij len by (simp only: sorted_nth_mono)
  moreover have "?t ! nat i = u_x s ! nat i" "?t ! nat j = u_x s ! nat j"
    using ij by (simp_all only: nth_take)
  ultimately show ?thesis by simp
qed

lemma scan_order_set:
  assumes "1 \<le> u_length s"
  shows "set (scan_order s) = {0..<u_length s}"
proof
  show "set (scan_order s) \<subseteq> {0..<u_length s}"
    using assms by (auto simp add: scan_order_def)
next
  show "{0..<u_length s} \<subseteq> set (scan_order s)"
  proof
    fix j assume j: "j \<in> {0..<u_length s}"
    let ?k = "(j - u_prev_point s) mod u_length s"
    have "?k \<in> set [0..u_length s - 1]" using assms by simp
    moreover have "(u_prev_point s + ?k) mod u_length s = j"
      using j by (simp add: mod_add_right_eq)
    ultimately show "j \<in> set (scan_order s)"
      unfolding scan_order_def by (metis (mono_tags, lifting) image_eqI set_map)
  qed
qed

lemma find_unique:
  "a \<in> set xs \<Longrightarrow> P a \<Longrightarrow> \<forall>b\<in>set xs. P b \<longrightarrow> b = a \<Longrightarrow> find P xs = Some a"
proof (induction xs)
  case Nil
  then show ?case by simp
next
  case (Cons c xs)
  show ?case
  proof (cases "P c")
    case True
    then have "c = a" using Cons.prems(3) by simp
    then show ?thesis using True by simp
  next
    case False
    then have "a \<in> set xs" using Cons.prems(1,2) by auto
    moreover have "\<forall>b\<in>set xs. P b \<longrightarrow> b = a" using Cons.prems(3) by simp
    ultimately have "find P xs = Some a" using Cons.IH Cons.prems(2) by blast
    then show ?thesis using False by simp
  qed
qed

lemma find_exists:
  "a \<in> set xs \<Longrightarrow> P a \<Longrightarrow> \<exists>b. find P xs = Some b \<and> b \<in> set xs \<and> P b"
  by (induction xs) auto



lemma rd_x: "table_ok s \<Longrightarrow> 0 \<le> i \<Longrightarrow> i < u_length s \<Longrightarrow> rd (u_x s) i = Inr (u_x s ! nat i)"
  unfolding rd_def table_ok_def by simp

lemma rd_y: "table_ok s \<Longrightarrow> 0 \<le> i \<Longrightarrow> i < u_length s \<Longrightarrow> rd (u_y s) i = Inr (u_y s ! nat i)"
  unfolding rd_def table_ok_def by simp

lemma calc_cursor [simp]: "calc (s\<lparr>u_prev_point := c\<rparr>) q i = calc s q i"
  by (simp add: calc_def catmull_tangent_def split del: if_split cong: if_cong)

lemma segment_hit_unique:
  assumes "table_ok s" "sorted_table s" "0 \<le> i" "i + 1 < u_length s"
    and "u_x s ! nat i < q" "q < u_x s ! nat (i + 1)"
    and "0 \<le> j" "j < u_length s" "hit s q j"
  shows "j = i"
proof (rule ccontr)
  assume "j \<noteq> i"
  then consider "j < i" | "i < j" by linarith
  then show False
  proof cases
    case 1
    have "u_x s ! nat (j + 1) \<le> u_x s ! nat i"
      using assms(1-4,7) 1 by (intro sorted_nth) simp_all
    then have "u_x s ! nat (j + 1) < q" using assms(5) by simp
    moreover have "u_x s ! nat j \<le> u_x s ! nat i"
      using assms(1-4,7) 1 by (intro sorted_nth) simp_all
    then have "u_x s ! nat j < q" using assms(5) by simp
    ultimately show False using assms(9) by (auto simp add: hit_def)
  next
    case 2
    have "u_x s ! nat (i + 1) \<le> u_x s ! nat j"
      using assms(1-4,8) 2 by (intro sorted_nth) simp_all
    then have "q < u_x s ! nat j" using assms(6) by simp
    then show False using assms(9) by (auto simp add: hit_def)
  qed
qed

lemma exact_hit_only:
  assumes "table_ok s" "sorted_table s" "0 \<le> i" "i < u_length s" "u_x s ! nat i = q"
    and "0 \<le> j" "j < u_length s" "hit s q j"
  shows "u_x s ! nat j = q"
proof (rule ccontr)
  assume ne: "u_x s ! nat j \<noteq> q"
  then have seg: "u_x s ! nat j < q" "q < u_x s ! nat (j + 1)"
    using assms(8) by (auto simp add: hit_def)
  have "j < i"
  proof (rule ccontr)
    assume "\<not> j < i"
    then have "u_x s ! nat i \<le> u_x s ! nat j"
      using assms(1-3,7) by (intro sorted_nth) simp_all
    then show False using seg(1) assms(5) by simp
  qed
  then have "u_x s ! nat (j + 1) \<le> u_x s ! nat i"
    using assms(1,2,4,6) by (intro sorted_nth) simp_all
  then show False using seg(2) assms(5) by simp
qed

lemma value_segment:
  assumes "table_ok s" "sorted_table s" "cursor_ok s" "0 \<le> i" "i + 1 < u_length s"
    and "u_x s ! nat i < q" "q < u_x s ! nat (i + 1)"
  shows "value s q = bind_res (calc s q i) (\<lambda>r. Inr (r, s\<lparr>u_prev_point := i\<rparr>))"
proof -
  have N: "1 \<le> u_length s" using assms(1) by (simp add: table_ok_def)
  have "u_x s ! nat 0 \<le> u_x s ! nat i"
    using assms(1,2,4,5) by (intro sorted_nth) simp_all
  then have lo: "\<not> q < u_x s ! 0" using assms(6) by simp
  have "u_x s ! nat (i + 1) \<le> u_x s ! nat (u_length s - 1)"
    using assms(1,2,4,5) by (intro sorted_nth) simp_all
  then have hi: "\<not> u_x s ! nat (u_length s - 1) < q" using assms(7) by simp
  have mem: "i \<in> set (scan_order s)"
    using scan_order_set [OF N] assms(4,5) by simp
  have h: "hit s q i" using assms(6,7) by (simp add: hit_def)
  have "\<forall>j\<in>set (scan_order s). hit s q j \<longrightarrow> j = i"
    using scan_order_set [OF N] segment_hit_unique [OF assms(1,2,4,5,6,7)] by simp
  then have "find (hit s q) (scan_order s) = Some i"
    using mem h by (intro find_unique)
  then show ?thesis
    using value_scan [OF assms(1,3) lo hi] assms(6) by (simp add: outcome_def)
qed

lemma value_exact:
  assumes "table_ok s" "sorted_table s" "cursor_ok s" "0 \<le> i" "i < u_length s"
  shows "\<exists>j. find (\<lambda>j. u_x s ! nat j = u_x s ! nat i) (scan_order s) = Some j
           \<and> value s (u_x s ! nat i) = Inr (u_y s ! nat j, s\<lparr>u_prev_point := j\<rparr>)"
proof -
  let ?q = "u_x s ! nat i"
  have N: "1 \<le> u_length s" using assms(1) by (simp add: table_ok_def)
  have "u_x s ! nat 0 \<le> ?q"
    using assms(1,2,4,5) by (intro sorted_nth) simp_all
  then have lo: "\<not> ?q < u_x s ! 0" by simp
  have "?q \<le> u_x s ! nat (u_length s - 1)"
    using assms(1,2,4,5) by (intro sorted_nth) simp_all
  then have hi: "\<not> u_x s ! nat (u_length s - 1) < ?q" by simp
  have mem: "i \<in> set (scan_order s)"
    using scan_order_set [OF N] assms(4,5) by simp
  have same: "find (hit s ?q) (scan_order s) = find (\<lambda>j. u_x s ! nat j = ?q) (scan_order s)"
  proof (rule find_cong [OF refl])
    fix j assume "j \<in> set (scan_order s)"
    then have j: "0 \<le> j" "j < u_length s" using scan_order_set [OF N] by simp_all
    show "hit s ?q j = (u_x s ! nat j = ?q)"
      using exact_hit_only [OF assms(1,2,4,5) refl j] by (auto simp add: hit_def)
  qed
  obtain j where j: "find (\<lambda>j. u_x s ! nat j = ?q) (scan_order s) = Some j" "u_x s ! nat j = ?q"
    using find_exists [OF mem, of "\<lambda>j. u_x s ! nat j = ?q"] by auto
  have "value s ?q = Inr (u_y s ! nat j, s\<lparr>u_prev_point := j\<rparr>)"
    using value_scan [OF assms(1,3) lo hi] same j by (simp add: outcome_def)
  then show ?thesis using j(1) by blast
qed

lemma rd_m: "u_length s \<le> int (length (u_m s)) \<Longrightarrow> 0 \<le> i \<Longrightarrow> i < u_length s \<Longrightarrow> rd (u_m s) i = Inr (u_m s ! nat i)"
  unfolding rd_def by simp

lemma divide_checked_ok: "b \<noteq> 0 \<Longrightarrow> divide_checked a b = Inr (a / b)"
  by (simp add: divide_checked_def)


lemma calc_linear:
  assumes "table_ok s" "u_degree s = 1" "0 \<le> i" "i + 1 < u_length s"
  shows "calc s q i =
     Inr (if u_x s ! nat i = u_x s ! nat (i + 1) then u_y s ! nat i
          else u_y s ! nat i + (u_y s ! nat (i + 1) - u_y s ! nat i) * (q - u_x s ! nat i)
                 / (u_x s ! nat (i + 1) - u_x s ! nat i))"
proof -
  have r: "rd (u_x s) i = Inr (u_x s ! nat i)" "rd (u_x s) (i + 1) = Inr (u_x s ! nat (i + 1))"
    "rd (u_y s) i = Inr (u_y s ! nat i)" "rd (u_y s) (i + 1) = Inr (u_y s ! nat (i + 1))"
    using assms by (simp_all add: rd_x rd_y)
  show ?thesis
    by (simp add: calc_def assms(2) r divide_checked_def)
qed

lemma calc_hermite:
  assumes "table_ok s" "u_degree s = Hermite" "u_length s \<le> int (length (u_m s))"
    and "0 \<le> i" "i + 1 < u_length s" "u_x s ! nat i \<noteq> u_x s ! nat (i + 1)"
  shows "calc s q i =
     Inr (hermite ((q - u_x s ! nat i) / (u_x s ! nat (i + 1) - u_x s ! nat i))
            (u_y s ! nat i) (u_y s ! nat (i + 1)) (u_m s ! nat i) (u_m s ! nat (i + 1))
            (u_x s ! nat i) (u_x s ! nat (i + 1)))"
proof -
  have r: "rd (u_x s) i = Inr (u_x s ! nat i)" "rd (u_x s) (i + 1) = Inr (u_x s ! nat (i + 1))"
    "rd (u_y s) i = Inr (u_y s ! nat i)" "rd (u_y s) (i + 1) = Inr (u_y s ! nat (i + 1))"
    "rd (u_m s) i = Inr (u_m s ! nat i)" "rd (u_m s) (i + 1) = Inr (u_m s ! nat (i + 1))"
    using assms by (simp_all add: rd_x rd_y rd_m)
  show ?thesis
    using assms(6) by (simp add: calc_def assms(2) r divide_checked_def Hermite_def)
qed

lemma catmull_tangent_ok:
  assumes "table_ok s" "0 < i" "i + 1 < u_length s"
  shows "catmull_tangent s i =
     Inr (if u_x s ! nat (i + 1) = u_x s ! nat (i - 1) then 0
          else (u_y s ! nat (i + 1) - u_y s ! nat (i - 1))
                 / (u_x s ! nat (i + 1) - u_x s ! nat (i - 1)))"
proof -
  have r: "rd (u_x s) (i + 1) = Inr (u_x s ! nat (i + 1))" "rd (u_x s) (i - 1) = Inr (u_x s ! nat (i - 1))"
    "rd (u_y s) (i + 1) = Inr (u_y s ! nat (i + 1))" "rd (u_y s) (i - 1) = Inr (u_y s ! nat (i - 1))"
    using assms by (simp_all add: rd_x rd_y)
  show ?thesis
    by (simp add: catmull_tangent_def r divide_checked_def)
qed

lemma calc_catmull_first:
  assumes "table_ok s" "u_degree s = Catmull" "2 \<le> u_length s"
  shows "calc s q 0 = Inr (u_y s ! 1)"
  using assms rd_y [of s 1] by (simp add: calc_def Catmull_def Hermite_def)

lemma calc_catmull_last:
  assumes "table_ok s" "u_degree s = Catmull" "3 \<le> u_length s"
  shows "calc s q (u_length s - 2) = Inr (u_y s ! nat (u_length s - 2))"
  using assms rd_y [of s "u_length s - 2"] by (simp add: calc_def Catmull_def Hermite_def)








lemmas eval_simps =
  value_def value_loop.simps value_body_def calc_def catmull_tangent_def rd_def
  divide_checked_def c_rem_def hermite_def hermite_00_def hermite_10_def hermite_01_def
  hermite_11_def Hermite_def Catmull_def table_ok_def sorted_table_def result_def
  scan_order_def hit_def outcome_def mode_ok_def cursor_ok_def add_overflows_def INT_MAX_def
  INT_MIN_def

lemma value_exact_unique:
  assumes "table_ok s" "sorted_table s" "cursor_ok s" "0 \<le> i" "i < u_length s"
    and "\<forall>j\<in>{0..<u_length s}. u_x s ! nat j = u_x s ! nat i \<longrightarrow> j = i"
  shows "value s (u_x s ! nat i) = Inr (u_y s ! nat i, s\<lparr>u_prev_point := i\<rparr>)"
proof -
  have N: "1 \<le> u_length s" using assms(1) by (simp add: table_ok_def)
  obtain j where j: "find (\<lambda>j. u_x s ! nat j = u_x s ! nat i) (scan_order s) = Some j"
      and v: "value s (u_x s ! nat i) = Inr (u_y s ! nat j, s\<lparr>u_prev_point := j\<rparr>)"
    using value_exact [OF assms(1-5)] by blast
  have "j \<in> set (scan_order s)" "u_x s ! nat j = u_x s ! nat i"
    using j by (auto simp add: find_Some_iff)
  then have "j = i" using assms(6) scan_order_set [OF N] by simp
  then show ?thesis using v by simp
qed



lemma value_body_Some:
  assumes "value_body s q idx = Inr (Some (r, s'))"
  shows "s' = s\<lparr>u_prev_point := idx\<rparr> \<and> hit s q idx"
  using assms
  by (auto simp add: value_body_def rd_def bind_res_def hit_def split: if_splits sum.splits)

lemma value_loop_Inr:
  "value_loop s q i = Inr (r, s') \<Longrightarrow> \<exists>idx. s' = s\<lparr>u_prev_point := idx\<rparr> \<and> hit s q idx"
proof (induction s q i rule: value_loop.induct)
  case (1 s x i)
  let ?idx = "c_rem (i + u_prev_point s) (u_length s)"
  have lt: "i < u_length s"
    using "1.prems" by (subst (asm) value_loop.simps) (simp split: if_splits)
  have novf: "\<not> add_overflows i (u_prev_point s)"
    using "1.prems" lt by (subst (asm) value_loop.simps) (simp split: if_splits)
  have step: "(case value_body s x ?idx of
           Inl e \<Rightarrow> Inl e
         | Inr (Some r) \<Rightarrow> Inr r
         | Inr None \<Rightarrow> value_loop s x (i + 1)) = Inr (r, s')"
    using "1.prems" lt novf by (subst (asm) value_loop.simps) simp
  show ?case
  proof (cases "value_body s x ?idx")
    case (Inl e)
    then show ?thesis using step by simp
  next
    case (Inr ob)
    show ?thesis
    proof (cases ob)
      case None
      then have "value_loop s x (i + 1) = Inr (r, s')" using step Inr by simp
      then show ?thesis using "1.IH" [OF lt novf Inr None] by simp
    next
      case (Some p)
      then have "value_body s x ?idx = Inr (Some (r, s'))" using step Inr by simp
      then show ?thesis using value_body_Some by blast
    qed
  qed
qed

lemma scan_order_nth:
  assumes "1 \<le> u_length s" "k < nat (u_length s)"
  shows "scan_order s ! k = (u_prev_point s + int k) mod u_length s"
    and "k < length (scan_order s)"
proof -
  have len: "length [0..u_length s - 1] = nat (u_length s)"
    using assms(1) by simp
  have "[0..u_length s - 1] ! k = 0 + int k"
    using assms by (intro nth_upto) linarith
  then show "scan_order s ! k = (u_prev_point s + int k) mod u_length s"
    using assms(2) len by (simp add: scan_order_def)
  show "k < length (scan_order s)"
    using assms(2) len by (simp add: scan_order_def)
qed

lemma scan_first_of_pair:
  assumes "1 \<le> u_length s" "0 \<le> i" "i + 1 < u_length s" "P i"
    and "u_prev_point s mod u_length s \<noteq> i + 1"
    and "find P (scan_order s) = Some j"
  shows "j \<noteq> i + 1"
proof
  assume j: "j = i + 1"
  obtain k where k: "k < length (scan_order s)" "scan_order s ! k = i + 1"
      "\<forall>k'<k. \<not> P (scan_order s ! k')"
    using assms(6) j by (auto simp add: find_Some_iff)
  have kN: "k < nat (u_length s)"
    using k(1) assms(1) by (simp add: scan_order_def)
  then have eq: "(u_prev_point s + int k) mod u_length s = i + 1"
    using scan_order_nth(1) [OF assms(1) kN] k(2) by simp
  have "k \<noteq> 0"
  proof
    assume "k = 0"
    then have "u_prev_point s mod u_length s = i + 1" using eq by simp
    then show False using assms(5) by simp
  qed
  then obtain k' where k': "k = Suc k'" by (cases k) auto
  then have "k' < nat (u_length s)" using kN by simp
  then have "scan_order s ! k' = (u_prev_point s + int k') mod u_length s"
    by (rule scan_order_nth(1) [OF assms(1)])
  also have "\<dots> = (u_prev_point s + int k - 1) mod u_length s"
    using k' by simp
  also have "\<dots> = ((u_prev_point s + int k) mod u_length s - 1) mod u_length s"
    by (simp add: mod_diff_left_eq)
  also have "\<dots> = i"
    using eq assms(2,3) by simp
  finally have "scan_order s ! k' = i" .
  then show False using k(3) k' assms(4) by auto
qed

text \<open>
  Outside that range the model shows the overflow: with a cursor left at \<open>2^31 - 2\<close> by
  a longer table, the scan of a four-sample table visits indices 2 and 3 and then forms
  the sum \<open>2 + (2^31 - 2)\<close>.
\<close>

lemma value_stale_cursor_overflow:
  "value (squares_table 1 (2 ^ 31 - 2)) 0 = Inl Overflow"
  by (simp add: squares_table_def eval_simps)

section \<open>Claims\<close>

subsection \<open>C1: flat extrapolation\<close>

text \<open>
  C1. Outside the table the evaluator extrapolates flat: a query strictly below
  \<open>x[0]\<close> returns \<open>y[0]\<close> and a query strictly above \<open>x[N-1]\<close> returns \<open>y[N-1]\<close>,
  both without touching the cursor, for every mode and every cursor. A query equal to
  \<open>x[0]\<close> (or to \<open>x[N-1]\<close>) goes through the scan instead and, for a usable cursor,
  returns \<open>y[0]\<close> (or \<open>y[N-1]\<close>) when no neighbouring sample repeats that abscissa; with
  a repeated end abscissa the scan may stop at the other sample, as the table
  \<open>[0,0] / [5,7]\<close> shows.
\<close>

theorem flat_extrapolation:
  assumes "table_ok s" "sorted_table s"
  shows "(q < u_x s ! 0 \<longrightarrow> value s q = Inr (u_y s ! 0, s))
    \<and> (u_x s ! nat (u_length s - 1) < q \<longrightarrow> value s q = Inr (u_y s ! nat (u_length s - 1), s))
    \<and> (cursor_ok s \<and> q = u_x s ! 0 \<and> (u_length s = 1 \<or> u_x s ! 0 < u_x s ! 1) \<longrightarrow>
         value s q = Inr (u_y s ! 0, s\<lparr>u_prev_point := 0\<rparr>))
    \<and> (cursor_ok s \<and> q = u_x s ! nat (u_length s - 1)
         \<and> (u_length s = 1 \<or> u_x s ! nat (u_length s - 2) < u_x s ! nat (u_length s - 1)) \<longrightarrow>
         value s q = Inr (u_y s ! nat (u_length s - 1), s\<lparr>u_prev_point := u_length s - 1\<rparr>))"
proof (intro conjI impI)
  assume "q < u_x s ! 0"
  then show "value s q = Inr (u_y s ! 0, s)"
    using assms(1) by (rule value_below [rotated])
next
  have N: "1 \<le> u_length s" using assms(1) by (simp add: table_ok_def)
  assume hi: "u_x s ! nat (u_length s - 1) < q"
  have "u_x s ! nat 0 \<le> u_x s ! nat (u_length s - 1)"
    using assms(1,2) N by (intro sorted_nth) simp_all
  then have "\<not> q < u_x s ! 0" using hi by simp
  then show "value s q = Inr (u_y s ! nat (u_length s - 1), s)"
    using assms(1) hi by (intro value_above)
next
  have N: "1 \<le> u_length s" using assms(1) by (simp add: table_ok_def)
  assume a: "cursor_ok s \<and> q = u_x s ! 0 \<and> (u_length s = 1 \<or> u_x s ! 0 < u_x s ! 1)"
  have "\<forall>j\<in>{0..<u_length s}. u_x s ! nat j = u_x s ! nat 0 \<longrightarrow> j = 0"
  proof (intro ballI impI, rule ccontr)
    fix j assume j: "j \<in> {0..<u_length s}" "u_x s ! nat j = u_x s ! nat 0" "j \<noteq> 0"
    then have "1 < u_length s" by simp
    then have lt: "u_x s ! 0 < u_x s ! 1" using a by simp
    have "u_x s ! nat 1 \<le> u_x s ! nat j"
      using assms(1,2) j by (intro sorted_nth) simp_all
    then show False using lt j(2) by simp
  qed
  then have "value s (u_x s ! nat 0) = Inr (u_y s ! nat 0, s\<lparr>u_prev_point := 0\<rparr>)"
    using assms a N by (intro value_exact_unique) simp_all
  then show "value s q = Inr (u_y s ! 0, s\<lparr>u_prev_point := 0\<rparr>)"
    using a by simp
next
  have N: "1 \<le> u_length s" using assms(1) by (simp add: table_ok_def)
  let ?l = "u_length s - 1"
  assume a: "cursor_ok s \<and> q = u_x s ! nat ?l
         \<and> (u_length s = 1 \<or> u_x s ! nat (u_length s - 2) < u_x s ! nat ?l)"
  have "\<forall>j\<in>{0..<u_length s}. u_x s ! nat j = u_x s ! nat ?l \<longrightarrow> j = ?l"
  proof (intro ballI impI, rule ccontr)
    fix j assume j: "j \<in> {0..<u_length s}" "u_x s ! nat j = u_x s ! nat ?l" "j \<noteq> ?l"
    then have "1 < u_length s" by auto
    then have lt: "u_x s ! nat (u_length s - 2) < u_x s ! nat ?l" using a by simp
    have "u_x s ! nat j \<le> u_x s ! nat (u_length s - 2)"
      using assms(1,2) j by (intro sorted_nth) auto
    then show False using lt j(2) by simp
  qed
  then have "value s (u_x s ! nat ?l) = Inr (u_y s ! nat ?l, s\<lparr>u_prev_point := ?l\<rparr>)"
    using assms a N by (intro value_exact_unique) simp_all
  then show "value s q = Inr (u_y s ! nat ?l, s\<lparr>u_prev_point := ?l\<rparr>)"
    using a by simp
qed

theorem flat_extrapolation_witness:
  "table_ok (squares_table 1 2) \<and> sorted_table (squares_table 1 2)
   \<and> cursor_ok (squares_table 1 2)
   \<and> value (squares_table 1 2) (- 1) = Inr (0, squares_table 1 2)
   \<and> value (squares_table 1 2) 10 = Inr (9, squares_table 1 2)
   \<and> value (squares_table 1 2) 0 = Inr (0, squares_table 1 0)
   \<and> value (squares_table 1 2) 3 = Inr (9, squares_table 1 3)"
proof -
  have h: "table_ok (squares_table 1 2)" "sorted_table (squares_table 1 2)"
    by (simp_all add: squares_table_def table_ok_def sorted_table_def)
  have c: "cursor_ok (squares_table 1 2)"
    by (simp add: squares_table_def cursor_ok_def INT_MAX_def)
  show ?thesis
    using h c flat_extrapolation [OF h, of "- 1"] flat_extrapolation [OF h, of 10]
      flat_extrapolation [OF h, of 0] flat_extrapolation [OF h, of 3]
    by (simp add: squares_table_def)
qed

theorem flat_extrapolation_counterexample:
  "table_ok (dup_table 0) \<and> sorted_table (dup_table 0)
   \<and> u_x (dup_table 0) ! nat (u_length (dup_table 0) - 1) \<le> 0
   \<and> result (value (dup_table 0) 0) = Some 5
   \<and> u_y (dup_table 0) ! nat (u_length (dup_table 0) - 1) = 7"
  by (simp add: dup_table_def eval_simps)

subsection \<open>C2: exactness at the sample points\<close>

text \<open>
  C2. A query at a sample abscissa \<open>x[i]\<close> of a sorted table with a usable cursor is
  answered by the exact-match branch: the result is \<open>y[j]\<close> for the first index \<open>j\<close> in scan order
  whose abscissa equals \<open>x[i]\<close>, whatever the mode and the tangent array are (so
  \<^verbatim>\<open>calc\<close> and its divisions are never reached), and the cursor moves to \<open>j\<close>. When
  no other sample shares \<open>x[i]\<close> this is \<open>y[i]\<close> exactly. With repeated abscissae
  \<open>value(x[i]) = y[i]\<close> cannot hold for all \<open>i\<close>.
\<close>

theorem sample_point_exactness:
  assumes "table_ok s" "sorted_table s" "cursor_ok s" "0 \<le> i" "i < u_length s"
  shows "(\<exists>j. find (\<lambda>j. u_x s ! nat j = u_x s ! nat i) (scan_order s) = Some j
            \<and> value s (u_x s ! nat i) = Inr (u_y s ! nat j, s\<lparr>u_prev_point := j\<rparr>))
    \<and> ((\<forall>j\<in>{0..<u_length s}. u_x s ! nat j = u_x s ! nat i \<longrightarrow> j = i) \<longrightarrow>
         value s (u_x s ! nat i) = Inr (u_y s ! nat i, s\<lparr>u_prev_point := i\<rparr>))"
  using value_exact [OF assms] value_exact_unique [OF assms] by blast

theorem sample_point_exactness_witness:
  "table_ok (squares_table 7 0) \<and> sorted_table (squares_table 7 0)
   \<and> cursor_ok (squares_table 7 0) \<and> (0::int) \<le> 2 \<and> 2 < u_length (squares_table 7 0)
   \<and> filter (\<lambda>j. u_x (squares_table 7 0) ! nat j = u_x (squares_table 7 0) ! nat 2)
         [0, 1, 2, 3] = [2]
   \<and> value (squares_table 7 0) 2 = Inr (4, squares_table 7 2)"
proof -
  have h: "table_ok (squares_table 7 0)" "sorted_table (squares_table 7 0)"
    "cursor_ok (squares_table 7 0)" "(0::int) \<le> 2" "2 < u_length (squares_table 7 0)"
    by (simp_all add: squares_table_def table_ok_def sorted_table_def cursor_ok_def INT_MAX_def)
  have set4: "{0..<4::int} = {0, 1, 2, 3}" by auto
  have u: "\<forall>j\<in>{0..<u_length (squares_table 7 0)}.
         u_x (squares_table 7 0) ! nat j = u_x (squares_table 7 0) ! nat 2 \<longrightarrow> j = 2"
    by (simp add: squares_table_def set4)
  show ?thesis
    using h u sample_point_exactness [OF h]
    by (simp add: squares_table_def)
qed

theorem sample_point_counterexample:
  "table_ok (dup_table 0) \<and> sorted_table (dup_table 0)
   \<and> result (value (dup_table 0) (u_x (dup_table 0) ! 1)) = Some 5
   \<and> u_y (dup_table 0) ! 1 = 7"
  by (simp add: dup_table_def eval_simps)

subsection \<open>C3: the Linear mode\<close>

text \<open>
  C3. In Linear mode (\<^verbatim>\<open>_degree == 1\<close>) a query strictly inside the segment
  \<open>x[i] < x < x[i+1]\<close> of a sorted table with a usable cursor evaluates to
  \<open>y[i] + (y[i+1] - y[i]) * (x - x[i]) / (x[i+1] - x[i])\<close> with the cursor moved to \<open>i\<close>;
  and on a degenerate segment \<open>x[i] = x[i+1]\<close> \<^verbatim>\<open>calc(x, i)\<close> returns \<open>y[i]\<close> without
  dividing.
\<close>

theorem linear_segment_formula:
  assumes "table_ok s" "sorted_table s" "u_degree s = 1"
    and "0 \<le> i" "i + 1 < u_length s"
  shows "(cursor_ok s \<and> u_x s ! nat i < q \<and> q < u_x s ! nat (i + 1) \<longrightarrow>
           value s q =
             Inr (u_y s ! nat i + (u_y s ! nat (i + 1) - u_y s ! nat i) * (q - u_x s ! nat i)
                    / (u_x s ! nat (i + 1) - u_x s ! nat i),
                  s\<lparr>u_prev_point := i\<rparr>))
    \<and> (u_x s ! nat i = u_x s ! nat (i + 1) \<longrightarrow> calc s q i = Inr (u_y s ! nat i))"
proof (intro conjI impI)
  assume a: "cursor_ok s \<and> u_x s ! nat i < q \<and> q < u_x s ! nat (i + 1)"
  then have c: "cursor_ok s" and "u_x s ! nat i \<noteq> u_x s ! nat (i + 1)" by auto
  then show "value s q =
             Inr (u_y s ! nat i + (u_y s ! nat (i + 1) - u_y s ! nat i) * (q - u_x s ! nat i)
                    / (u_x s ! nat (i + 1) - u_x s ! nat i),
                  s\<lparr>u_prev_point := i\<rparr>)"
    using value_segment [OF assms(1,2) c assms(4,5), of q] a calc_linear [OF assms(1,3,4,5), of q]
    by simp
next
  assume "u_x s ! nat i = u_x s ! nat (i + 1)"
  then show "calc s q i = Inr (u_y s ! nat i)"
    using calc_linear [OF assms(1,3,4,5), of q] by simp
qed

theorem linear_segment_formula_witness:
  "table_ok (squares_table 1 0) \<and> sorted_table (squares_table 1 0)
   \<and> cursor_ok (squares_table 1 0) \<and> u_degree (squares_table 1 0) = 1
   \<and> value (squares_table 1 0) (3 / 2) = Inr (5 / 2, squares_table 1 1)
   \<and> table_ok (dup_mid_table 0) \<and> sorted_table (dup_mid_table 0)
   \<and> u_x (dup_mid_table 0) ! nat 1 = u_x (dup_mid_table 0) ! nat (1 + 1)
   \<and> calc (dup_mid_table 0) 1 1 = Inr 10"
proof -
  have h: "table_ok (squares_table 1 0)" "sorted_table (squares_table 1 0)"
    "u_degree (squares_table 1 0) = 1"
    "(0::int) \<le> 1" "1 + 1 < u_length (squares_table 1 0)"
    by (simp_all add: squares_table_def table_ok_def sorted_table_def)
  have c: "cursor_ok (squares_table 1 0)"
    by (simp add: squares_table_def cursor_ok_def INT_MAX_def)
  have d: "table_ok (dup_mid_table 0)" "sorted_table (dup_mid_table 0)"
    "u_degree (dup_mid_table 0) = 1"
    "(0::int) \<le> 1" "1 + 1 < u_length (dup_mid_table 0)"
    by (simp_all add: dup_mid_table_def table_ok_def sorted_table_def)
  show ?thesis
    using h c d linear_segment_formula [OF h, of "3 / 2"] linear_segment_formula [OF d, of 1]
    by (simp add: squares_table_def dup_mid_table_def)
qed

subsection \<open>C4: scan order and cursor update\<close>



subsection \<open>C5: the CatmullRom boundary policy\<close>

text \<open>
  C5. In CatmullRom mode (\<^verbatim>\<open>_degree == 11\<close>) \<^verbatim>\<open>calc(x, 0)\<close> returns \<open>y[1]\<close> for
  every \<open>x\<close>, and \<^verbatim>\<open>calc(x, N-2)\<close> returns \<open>y[N-2]\<close> for every \<open>x\<close> when
  \<open>N - 2\<close> is not \<open>0\<close>; so \<^verbatim>\<open>value\<close> returns \<open>y[1]\<close> anywhere strictly inside the first
  segment and \<open>y[N-2]\<close> anywhere strictly inside segment \<open>N-2\<close> of a table with at least
  three samples (sorted table, usable cursor). With two samples the only segment is index \<open>0 = N-2\<close> and the first
  rule wins: the result is \<open>y[1]\<close>, not \<open>y[N-2] = y[0]\<close>. Segment \<open>N-2\<close> is the last
  one; on the segment before it, \<open>N-3\<close>, the Hermite basis is evaluated as on any
  inner segment.
\<close>

theorem catmull_boundary:
  assumes "table_ok s" "u_degree s = Catmull" "2 \<le> u_length s"
  shows "calc s q 0 = Inr (u_y s ! 1)
    \<and> (u_length s \<noteq> 2 \<longrightarrow> calc s q (u_length s - 2) = Inr (u_y s ! nat (u_length s - 2)))
    \<and> (sorted_table s \<and> cursor_ok s \<and> u_x s ! 0 < q \<and> q < u_x s ! 1 \<longrightarrow>
         value s q = Inr (u_y s ! 1, s\<lparr>u_prev_point := 0\<rparr>))
    \<and> (sorted_table s \<and> cursor_ok s \<and> u_length s \<noteq> 2
         \<and> u_x s ! nat (u_length s - 2) < q \<and> q < u_x s ! nat (u_length s - 1) \<longrightarrow>
         value s q = Inr (u_y s ! nat (u_length s - 2), s\<lparr>u_prev_point := u_length s - 2\<rparr>))"
proof (intro conjI impI)
  show first: "calc s q 0 = Inr (u_y s ! 1)"
    using assms by (rule calc_catmull_first)
  show "calc s q (u_length s - 2) = Inr (u_y s ! nat (u_length s - 2))" if "u_length s \<noteq> 2"
    using assms that by (intro calc_catmull_last) simp_all
  show "value s q = Inr (u_y s ! 1, s\<lparr>u_prev_point := 0\<rparr>)"
    if a: "sorted_table s \<and> cursor_ok s \<and> u_x s ! 0 < q \<and> q < u_x s ! 1"
  proof -
    have "value s q = bind_res (calc s q 0) (\<lambda>r. Inr (r, s\<lparr>u_prev_point := 0\<rparr>))"
      using assms(1,3) a by (intro value_segment) simp_all
    then show ?thesis using first by simp
  qed
  show "value s q = Inr (u_y s ! nat (u_length s - 2), s\<lparr>u_prev_point := u_length s - 2\<rparr>)"
    if a: "sorted_table s \<and> cursor_ok s \<and> u_length s \<noteq> 2
         \<and> u_x s ! nat (u_length s - 2) < q \<and> q < u_x s ! nat (u_length s - 1)"
  proof -
    have eq: "u_length s - 2 + 1 = u_length s - 1" by simp
    have "value s q = bind_res (calc s q (u_length s - 2))
        (\<lambda>r. Inr (r, s\<lparr>u_prev_point := u_length s - 2\<rparr>))"
      using assms(1,3) a by (intro value_segment) (simp_all add: eq)
    moreover have "calc s q (u_length s - 2) = Inr (u_y s ! nat (u_length s - 2))"
      using assms a by (intro calc_catmull_last) simp_all
    ultimately show ?thesis by simp
  qed
qed

theorem catmull_boundary_witness:
  "table_ok (squares_table Catmull 0) \<and> u_degree (squares_table Catmull 0) = Catmull
   \<and> 2 \<le> u_length (squares_table Catmull 0) \<and> sorted_table (squares_table Catmull 0)
   \<and> cursor_ok (squares_table Catmull 0)
   \<and> calc (squares_table Catmull 0) (1 / 2) 0 = Inr 1
   \<and> calc (squares_table Catmull 0) (5 / 2) 2 = Inr 4
   \<and> value (squares_table Catmull 0) (1 / 2) = Inr (1, squares_table Catmull 0)
   \<and> value (squares_table Catmull 0) (5 / 2) = Inr (4, squares_table Catmull 2)"
proof -
  have h: "table_ok (squares_table Catmull 0)" "u_degree (squares_table Catmull 0) = Catmull"
    "2 \<le> u_length (squares_table Catmull 0)"
    by (simp_all add: squares_table_def table_ok_def)
  have s: "sorted_table (squares_table Catmull 0)" "cursor_ok (squares_table Catmull 0)"
    by (simp_all add: squares_table_def sorted_table_def cursor_ok_def INT_MAX_def)
  show ?thesis
    using h s catmull_boundary [OF h, of "1 / 2"] catmull_boundary [OF h, of "5 / 2"]
    by (simp add: squares_table_def)
qed

theorem catmull_boundary_counterexample:
  "table_ok two_point_table \<and> sorted_table two_point_table
   \<and> u_degree two_point_table = Catmull \<and> u_length two_point_table - 2 = 0
   \<and> calc two_point_table (1 / 2) 0 = Inr 7
   \<and> value two_point_table (1 / 2) = Inr (7, two_point_table)
   \<and> u_y two_point_table ! nat (u_length two_point_table - 2) = 5
   \<and> u_length (squares_table Catmull 0) - 3 = 1
   \<and> calc (squares_table Catmull 0) (3 / 2) 1 = Inr (9 / 4)
   \<and> u_y (squares_table Catmull 0) ! nat (u_length (squares_table Catmull 0) - 2) = 4"
  by (simp add: two_point_table_def squares_table_def eval_simps power2_eq_square power3_eq_cube)

subsection \<open>C6: the Hermite formula\<close>

text \<open>
  C6. In Hermite mode (\<^verbatim>\<open>_degree == 10\<close>, tangents supplied), a query strictly inside
  the segment \<open>x[i] < x < x[i+1]\<close> of a sorted table with a usable cursor evaluates, with
  \<open>t = (x - x[i]) / (x[i+1] - x[i])\<close>, to
  \<open>h00(t)*y[i] + h10(t)*(x[i+1]-x[i])*m[i] + h01(t)*y[i+1] + h11(t)*(x[i+1]-x[i])*m[i+1]\<close>
  where \<open>h00(t) = 2t^3 - 3t^2 + 1\<close>, \<open>h10(t) = t^3 - 2t^2 + t\<close>, \<open>h01(t) = 3t^2 - 2t^3\<close>
  and \<open>h11(t) = t^3 - t^2\<close>; the cursor moves to \<open>i\<close>.
\<close>

theorem hermite_formula:
  assumes "table_ok s" "sorted_table s" "cursor_ok s"
    and "u_degree s = Hermite" "u_length s \<le> int (length (u_m s))"
    and "0 \<le> i" "i + 1 < u_length s" "u_x s ! nat i < q" "q < u_x s ! nat (i + 1)"
  shows "value s q =
     Inr (let t = (q - u_x s ! nat i) / (u_x s ! nat (i + 1) - u_x s ! nat i);
              h = u_x s ! nat (i + 1) - u_x s ! nat i
          in (2 * t ^ 3 - 3 * t ^ 2 + 1) * u_y s ! nat i
             + (t ^ 3 - 2 * t ^ 2 + t) * h * u_m s ! nat i
             + (3 * t ^ 2 - 2 * t ^ 3) * u_y s ! nat (i + 1)
             + (t ^ 3 - t ^ 2) * h * u_m s ! nat (i + 1),
          s\<lparr>u_prev_point := i\<rparr>)"
proof -
  have ne: "u_x s ! nat i \<noteq> u_x s ! nat (i + 1)" using assms(8,9) by auto
  have "value s q = bind_res (calc s q i) (\<lambda>r. Inr (r, s\<lparr>u_prev_point := i\<rparr>))"
    using assms(1,2,3,6,7,8,9) by (rule value_segment)
  then show ?thesis
    unfolding calc_hermite [OF assms(1,4,5,6,7) ne]
    by (simp add: hermite_def hermite_00_def hermite_10_def hermite_01_def hermite_11_def Let_def)
qed

theorem hermite_formula_witness:
  "table_ok (squares_table Hermite 0) \<and> sorted_table (squares_table Hermite 0)
   \<and> cursor_ok (squares_table Hermite 0)
   \<and> u_degree (squares_table Hermite 0) = Hermite
   \<and> u_length (squares_table Hermite 0) \<le> int (length (u_m (squares_table Hermite 0)))
   \<and> value (squares_table Hermite 0) (3 / 2) = Inr (9 / 4, squares_table Hermite 1)"
proof -
  have h: "table_ok (squares_table Hermite 0)" "sorted_table (squares_table Hermite 0)"
    "cursor_ok (squares_table Hermite 0)"
    "u_degree (squares_table Hermite 0) = Hermite"
    "u_length (squares_table Hermite 0) \<le> int (length (u_m (squares_table Hermite 0)))"
    "(0::int) \<le> 1" "1 + 1 < u_length (squares_table Hermite 0)"
    "u_x (squares_table Hermite 0) ! nat 1 < 3 / 2"
    "3 / 2 < u_x (squares_table Hermite 0) ! nat (1 + 1)"
    by (simp_all add: squares_table_def table_ok_def sorted_table_def cursor_ok_def INT_MAX_def)
  show ?thesis
    using h hermite_formula [OF h]
    by (simp add: squares_table_def Let_def power2_eq_square power3_eq_cube)
qed

subsection \<open>C7: the Catmull-Rom tangent\<close>

text \<open>
  C7. At an interior index \<open>0 < i < N-1\<close> of a configured table,
  \<^verbatim>\<open>catmull_tangent(i)\<close> returns \<open>0\<close> when \<open>x[i+1] = x[i-1]\<close> and the centred difference
  \<open>(y[i+1] - y[i-1]) / (x[i+1] - x[i-1])\<close> otherwise; it always returns a value, so the
  division never meets a zero divisor and no read leaves the arrays.
\<close>

theorem catmull_tangent_interior:
  assumes "table_ok s" "0 < i" "i < u_length s - 1"
  shows "catmull_tangent s i =
     Inr (if u_x s ! nat (i + 1) = u_x s ! nat (i - 1) then 0
          else (u_y s ! nat (i + 1) - u_y s ! nat (i - 1))
                 / (u_x s ! nat (i + 1) - u_x s ! nat (i - 1)))"
  using assms by (intro catmull_tangent_ok) simp_all

theorem catmull_tangent_interior_witness:
  "table_ok (squares_table Catmull 0) \<and> (0::int) < 1 \<and> 1 < u_length (squares_table Catmull 0) - 1
   \<and> catmull_tangent (squares_table Catmull 0) 1 = Inr 2
   \<and> table_ok triple_table \<and> (0::int) < 2 \<and> 2 < u_length triple_table - 1
   \<and> catmull_tangent triple_table 2 = Inr 0"
proof -
  have h: "table_ok (squares_table Catmull 0)" "(0::int) < 1"
    "1 < u_length (squares_table Catmull 0) - 1"
    by (simp_all add: squares_table_def table_ok_def)
  have d: "table_ok triple_table" "(0::int) < 2" "2 < u_length triple_table - 1"
    by (simp_all add: triple_table_def table_ok_def)
  show ?thesis
    using h d catmull_tangent_interior [OF h] catmull_tangent_interior [OF d]
    by (simp add: squares_table_def triple_table_def)
qed

subsection \<open>C8: a query at a repeated abscissa\<close>

text \<open>
  C8. When two adjacent samples of a sorted table share their abscissa,
  \<open>x[i] = x[i+1]\<close>, a query at that abscissa with a usable cursor returns, without any
  division, the \<open>y\<close> of
  the first sample in scan order that has this abscissa, and the cursor moves there.
  This is the first of the two, \<open>y[i]\<close>, when no third sample shares the abscissa and
  the scan does not start at \<open>i+1\<close>; a cursor left at \<open>i+1\<close> by an earlier query makes
  it \<open>y[i+1]\<close>.
\<close>

theorem duplicate_x_query:
  assumes "table_ok s" "sorted_table s" "cursor_ok s"
    and "0 \<le> i" "i + 1 < u_length s" "u_x s ! nat i = u_x s ! nat (i + 1)"
  shows "(\<exists>j. find (\<lambda>j. u_x s ! nat j = u_x s ! nat i) (scan_order s) = Some j
            \<and> value s (u_x s ! nat i) = Inr (u_y s ! nat j, s\<lparr>u_prev_point := j\<rparr>))
    \<and> ((\<forall>j\<in>{0..<u_length s}. u_x s ! nat j = u_x s ! nat i \<longrightarrow> j = i \<or> j = i + 1)
         \<and> u_prev_point s mod u_length s \<noteq> i + 1 \<longrightarrow>
         value s (u_x s ! nat i) = Inr (u_y s ! nat i, s\<lparr>u_prev_point := i\<rparr>))"
proof -
  have N: "1 \<le> u_length s" using assms(1) by (simp add: table_ok_def)
  have iN: "i < u_length s" using assms(5) by simp
  obtain j where j: "find (\<lambda>j. u_x s ! nat j = u_x s ! nat i) (scan_order s) = Some j"
      and v: "value s (u_x s ! nat i) = Inr (u_y s ! nat j, s\<lparr>u_prev_point := j\<rparr>)"
    using value_exact [OF assms(1-4) iN] by blast
  have jm: "j \<in> {0..<u_length s}" "u_x s ! nat j = u_x s ! nat i"
    using j scan_order_set [OF N] by (auto simp add: find_Some_iff)
  have "value s (u_x s ! nat i) = Inr (u_y s ! nat i, s\<lparr>u_prev_point := i\<rparr>)"
    if only: "\<forall>j\<in>{0..<u_length s}. u_x s ! nat j = u_x s ! nat i \<longrightarrow> j = i \<or> j = i + 1"
      and c: "u_prev_point s mod u_length s \<noteq> i + 1"
  proof -
    have "j \<noteq> i + 1"
      using scan_first_of_pair [OF N assms(4,5) _ c j] by simp
    then have "j = i" using only jm by blast
    then show ?thesis using v by simp
  qed
  then show ?thesis using j v by blast
qed

theorem duplicate_x_query_witness:
  "table_ok (dup_mid_table 0) \<and> sorted_table (dup_mid_table 0)
   \<and> cursor_ok (dup_mid_table 0) \<and> 1 + 1 < u_length (dup_mid_table 0)
   \<and> u_x (dup_mid_table 0) ! nat 1 = u_x (dup_mid_table 0) ! nat (1 + 1)
   \<and> filter (\<lambda>j. u_x (dup_mid_table 0) ! nat j = u_x (dup_mid_table 0) ! nat 1) [0, 1, 2, 3] = [1, 2]
   \<and> u_prev_point (dup_mid_table 0) mod u_length (dup_mid_table 0) \<noteq> 1 + 1
   \<and> value (dup_mid_table 0) 1 = Inr (10, dup_mid_table 1)"
proof -
  have h: "table_ok (dup_mid_table 0)" "sorted_table (dup_mid_table 0)"
    "cursor_ok (dup_mid_table 0)" "(0::int) \<le> 1" "1 + 1 < u_length (dup_mid_table 0)"
    "u_x (dup_mid_table 0) ! nat 1 = u_x (dup_mid_table 0) ! nat (1 + 1)"
    by (simp_all add: dup_mid_table_def table_ok_def sorted_table_def cursor_ok_def INT_MAX_def)
  have set4: "{0..<4::int} = {0, 1, 2, 3}" by auto
  have u: "\<forall>j\<in>{0..<u_length (dup_mid_table 0)}.
      u_x (dup_mid_table 0) ! nat j = u_x (dup_mid_table 0) ! nat 1 \<longrightarrow> j = 1 \<or> j = 1 + 1"
    by (simp add: dup_mid_table_def set4)
  have c: "u_prev_point (dup_mid_table 0) mod u_length (dup_mid_table 0) \<noteq> 1 + 1"
    by (simp add: dup_mid_table_def)
  show ?thesis
    using h u c duplicate_x_query [OF h]
    by (simp add: dup_mid_table_def)
qed

theorem duplicate_x_query_counterexample:
  "table_ok (dup_mid_table 0) \<and> sorted_table (dup_mid_table 0)
   \<and> u_x (dup_mid_table 0) ! 1 = u_x (dup_mid_table 0) ! 2
   \<and> value (dup_mid_table 0) (3 / 2) = Inr (25, dup_mid_table 2)
   \<and> value (dup_mid_table 2) (u_x (dup_mid_table 2) ! 1) = Inr (20, dup_mid_table 2)
   \<and> u_y (dup_mid_table 2) ! 1 = 10"
  by (simp add: dup_mid_table_def eval_simps)

subsection \<open>C9: the scan never falls through\<close>




subsection \<open>C10: the frame of value\<close>

text \<open>
  C10. A call of \<^verbatim>\<open>value\<close> that returns leaves the three arrays, the sample count and
  the degree as they were. The only member it may change is the cursor, and then the
  new cursor is an index that matched the query (exact match or containing segment); a
  query below \<open>x[0]\<close> or above \<open>x[N-1]\<close> leaves the whole state unchanged.
\<close>

theorem value_frame:
  assumes "value s q = Inr (r, s')"
  shows "u_x s' = u_x s \<and> u_y s' = u_y s \<and> u_m s' = u_m s
    \<and> u_length s' = u_length s \<and> u_degree s' = u_degree s
    \<and> (s' = s \<or> (\<exists>idx. s' = s\<lparr>u_prev_point := idx\<rparr> \<and> hit s q idx))
    \<and> (q < u_x s ! 0 \<or> u_x s ! nat (u_length s - 1) < q \<longrightarrow> s' = s)"
proof -
  have x0: "rd (u_x s) 0 = Inr (u_x s ! 0)"
    using assms by (cases "rd (u_x s) 0") (auto simp add: value_def rd_def split: if_splits)
  show ?thesis
  proof (cases "q < u_x s ! 0")
    case True
    then have "s' = s"
      using assms x0 by (cases "rd (u_y s) 0") (simp_all add: value_def)
    then show ?thesis by simp
  next
    case lo: False
    have xl: "rd (u_x s) (u_length s - 1) = Inr (u_x s ! nat (u_length s - 1))"
      using assms x0 lo
      by (cases "rd (u_x s) (u_length s - 1)") (auto simp add: value_def rd_def split: if_splits)
    show ?thesis
    proof (cases "u_x s ! nat (u_length s - 1) < q")
      case True
      then have "s' = s"
        using assms x0 xl lo by (cases "rd (u_y s) (u_length s - 1)") (simp_all add: value_def)
      then show ?thesis by simp
    next
      case False
      then have "value_loop s q 0 = Inr (r, s')"
        using assms x0 xl lo by (simp add: value_def)
      then obtain idx where "s' = s\<lparr>u_prev_point := idx\<rparr>" "hit s q idx"
        using value_loop_Inr by blast
      then show ?thesis using lo False by auto
    qed
  qed
qed

theorem value_frame_witness:
  "value (squares_table 1 0) (5 / 2) = Inr (13 / 2, squares_table 1 2)
   \<and> u_x (squares_table 1 2) = u_x (squares_table 1 0)
   \<and> u_y (squares_table 1 2) = u_y (squares_table 1 0)
   \<and> u_m (squares_table 1 2) = u_m (squares_table 1 0)
   \<and> hit (squares_table 1 0) (5 / 2) 2
   \<and> value (squares_table 1 2) 10 = Inr (9, squares_table 1 2)"
proof -
  have a: "value (squares_table 1 0) (5 / 2) = Inr (13 / 2, squares_table 1 2)"
    by (simp add: squares_table_def eval_simps)
  have b: "value (squares_table 1 2) 10 = Inr (9, squares_table 1 2)"
    by (simp add: squares_table_def eval_simps)
  show ?thesis
    using a b value_frame [OF a] value_frame [OF b]
    by (simp add: squares_table_def hit_def)
qed

end
